theory Spec2Isabelle
  imports Complex_Main "HOL-Library.Transitive_Closure_Table"
begin

section \<open>Data model of \<^verbatim>\<open>src/lib/logic.ts\<close>\<close>

text \<open>
  The TypeScript type \<^verbatim>\<open>number\<close> of coordinates and weights is the type parameter
  \<open>'n\<close>. The algorithm reads a weight only through the comparison \<^verbatim>\<open><\<close>, so the
  definitions ask for the class \<open>ord\<close> alone: any relation \<open><\<close>, also one with
  incomparable values as the doubles have with NaN, is an instance. Theorems that speak
  of a minimum are stated for the type \<open>number\<close> below, which has NaN, and say where
  NaN must be absent. Identifiers are integers; a \<^verbatim>\<open>Set<number>\<close> of identifiers is a list
  without repetition, in insertion order.
\<close>

record 'n Village =
  village_id :: int
  lat :: 'n
  lon :: 'n

record 'n Edge =
  edge_from :: int
  edge_to :: int
  weight :: 'n
  distance :: "'n option"

text \<open>The returned object \<^verbatim>\<open>{ mst, sequence }\<close>, and the loop's variables: the two
  arrays and the set \<^verbatim>\<open>visited\<close>.\<close>

record 'n PrimResult =
  mst :: "'n Edge list"
  sequence :: "'n Edge list"

record 'n PrimState = "'n PrimResult" +
  visited :: "int list"

subsection \<open>The numbers of the language\<close>

text \<open>
  A \<^verbatim>\<open>number\<close> is a finite value, an infinity or NaN; a finite double is taken as the
  real number it denotes. \<open><\<close> and \<open>\<le>\<close> are the comparisons \<^verbatim>\<open><\<close> and \<^verbatim>\<open><=\<close> of the
  language: both are false as soon as one operand is NaN. \<open>+\<close> is \<^verbatim>\<open>+\<close> with NaN
  absorbing and the sum of opposite infinities NaN; on finite values it is the exact sum.
  \<^verbatim>\<open>haversineDistance\<close> returns NaN for finite coordinates when rounding takes the
  value \<^verbatim>\<open>a\<close> of line 7 above 1, as it does for the points (8, 0) and (-8, 180): then
  \<^verbatim>\<open>Math.sqrt(1 - a)\<close> is NaN. So NaN is a weight that the algorithm receives.
\<close>

datatype number = Finite real | PosInf | NegInf | NaN

instantiation number :: ord
begin

fun less_number :: "number \<Rightarrow> number \<Rightarrow> bool" where
  "less_number (Finite a) (Finite b) = (a < b)"
| "less_number (Finite a) PosInf = True"
| "less_number NegInf (Finite b) = True"
| "less_number NegInf PosInf = True"
| "less_number _ _ = False"

fun less_eq_number :: "number \<Rightarrow> number \<Rightarrow> bool" where
  "less_eq_number (Finite a) (Finite b) = (a \<le> b)"
| "less_eq_number (Finite a) PosInf = True"
| "less_eq_number NegInf (Finite b) = True"
| "less_eq_number NegInf PosInf = True"
| "less_eq_number NegInf NegInf = True"
| "less_eq_number PosInf PosInf = True"
| "less_eq_number _ _ = False"

instance ..

end

instantiation number :: comm_monoid_add
begin

definition zero_number :: number where
  "zero_number = Finite 0"

fun plus_number :: "number \<Rightarrow> number \<Rightarrow> number" where
  "plus_number (Finite a) (Finite b) = Finite (a + b)"
| "plus_number NaN _ = NaN"
| "plus_number _ NaN = NaN"
| "plus_number PosInf NegInf = NaN"
| "plus_number NegInf PosInf = NaN"
| "plus_number PosInf _ = PosInf"
| "plus_number _ PosInf = PosInf"
| "plus_number NegInf _ = NegInf"
| "plus_number _ NegInf = NegInf"

instance
proof
  fix x :: number
  show "0 + x = x"
    unfolding zero_number_def by (cases x) auto
next
  fix x y :: number
  show "x + y = y + x"
    by (cases x) (cases y, auto)+
next
  fix x y z :: number
  have nan: "u + NaN = NaN" for u :: number
    by (cases u) auto
  show "(x + y) + z = x + (y + z)"
  proof (cases z)
    case NaN
    then show ?thesis by (simp add: nan)
  qed (cases x; cases y; simp)+
qed

end



subsection \<open>The operations of \<^verbatim>\<open>Set\<close> that the code calls\<close>

definition set_has :: "int list \<Rightarrow> int \<Rightarrow> bool" where
  "set_has s x = (x \<in> set s)"

definition set_add :: "int list \<Rightarrow> int \<Rightarrow> int list" where
  "set_add s x = (if set_has s x then s else s @ [x])"

definition set_size :: "int list \<Rightarrow> nat" where
  "set_size s = length s"

section \<open>\<^verbatim>\<open>runPrimsAlgorithm\<close>\<close>

text \<open>The test of line 43: exactly one endpoint of the edge is visited.\<close>

definition frontier :: "int list \<Rightarrow> 'n Edge \<Rightarrow> bool" where
  "frontier vis edge =
     (let fromVisited = set_has vis (edge_from edge);
          toVisited = set_has vis (edge_to edge)
      in (fromVisited \<and> \<not> toVisited) \<or> (\<not> fromVisited \<and> toVisited))"

text \<open>One pass of the \<^verbatim>\<open>for\<close> loop of lines 40 to 48 over \<^verbatim>\<open>allEdges\<close>;
  \<open>None\<close> is \<^verbatim>\<open>null\<close>.\<close>

definition scanStep :: "int list \<Rightarrow> ('n::ord) Edge option \<Rightarrow> 'n Edge \<Rightarrow> 'n Edge option" where
  "scanStep vis minEdge edge =
     (if frontier vis edge then
        (case minEdge of
           None \<Rightarrow> Some edge
         | Some m \<Rightarrow> if weight edge < weight m then Some edge else minEdge)
      else minEdge)"

fun scanEdges :: "int list \<Rightarrow> ('n::ord) Edge list \<Rightarrow> 'n Edge option \<Rightarrow> 'n Edge option" where
  "scanEdges vis [] minEdge = minEdge"
| "scanEdges vis (edge # rest) minEdge = scanEdges vis rest (scanStep vis minEdge edge)"

text \<open>The body of the \<^verbatim>\<open>while\<close> loop, lines 39 to 55. \<open>None\<close> is the
  \<^verbatim>\<open>break\<close> of line 54; \<open>Some\<close> carries the variables into the next test of the
  loop condition.\<close>

definition primIter :: "('n::ord) Edge list \<Rightarrow> 'n PrimState \<Rightarrow> 'n PrimState option" where
  "primIter allEdges st =
     (case scanEdges (visited st) allEdges None of
        Some minEdge \<Rightarrow>
          Some (st\<lparr> mst := mst st @ [minEdge],
                    sequence := sequence st @ [minEdge],
                    visited := set_add (visited st)
                      (if set_has (visited st) (edge_from minEdge)
                       then edge_to minEdge else edge_from minEdge) \<rparr>)
      | None \<Rightarrow> None)"

text \<open>The \<^verbatim>\<open>while\<close> loop of line 38, written as it stands: nothing in the definition
  says that it ends, and \<open>None\<close> is the run that never leaves the loop.\<close>

partial_function (option) primLoop ::
  "'n Village list \<Rightarrow> ('n::ord) Edge list \<Rightarrow> 'n PrimState \<Rightarrow> 'n PrimState option" where
  "primLoop villages allEdges st =
     (if set_size (visited st) < length villages then
        (case primIter allEdges st of
           Some st' \<Rightarrow> primLoop villages allEdges st'
         | None \<Rightarrow> Some st)
      else Some st)"

declare primLoop.simps [code]

text \<open>Line 35, \<^verbatim>\<open>startNodeId ?? villages[0].id\<close>. It is reached with a non-empty
  array only (line 29), where \<^verbatim>\<open>villages[0]\<close> is the first element.\<close>

definition startingPoint :: "'n Village list \<Rightarrow> int option \<Rightarrow> int" where
  "startingPoint villages startNodeId =
     (case startNodeId of Some s \<Rightarrow> s | None \<Rightarrow> village_id (villages ! 0))"

definition initState :: "'n Village list \<Rightarrow> int option \<Rightarrow> 'n PrimState" where
  "initState villages startNodeId =
     \<lparr> mst = [], sequence = [], visited = set_add [] (startingPoint villages startNodeId) \<rparr>"

definition runPrimsAlgorithm ::
  "'n Village list \<Rightarrow> ('n::ord) Edge list \<Rightarrow> int option \<Rightarrow> 'n PrimResult option" where
  "runPrimsAlgorithm villages allEdges startNodeId =
     (if length villages = 0 then Some \<lparr> mst = [], sequence = [] \<rparr>
      else
        (case primLoop villages allEdges (initState villages startNodeId) of
           Some st \<Rightarrow> Some \<lparr> mst = mst st, sequence = sequence st \<rparr>
         | None \<Rightarrow> None))"

text \<open>The endpoint that line 52 adds to \<^verbatim>\<open>visited\<close>.\<close>

definition newEndpoint :: "int list \<Rightarrow> 'n Edge \<Rightarrow> int" where
  "newEndpoint vis e = (if set_has vis (edge_from e) then edge_to e else edge_from e)"

section \<open>The caller in \<^verbatim>\<open>App.tsx\<close>: the candidate edge list\<close>

text \<open>The nested loops that build \<^verbatim>\<open>allPossibleEdges\<close> before each call, one edge for
  every pair of positions \<open>i < j\<close>. \<^verbatim>\<open>haversineDistance\<close> is floating-point
  arithmetic; the list is built here for any function of the four coordinates.\<close>

definition allPossibleEdges ::
  "('n \<Rightarrow> 'n \<Rightarrow> 'n \<Rightarrow> 'n \<Rightarrow> 'n) \<Rightarrow> 'n Village list \<Rightarrow> 'n Edge list" where
  "allPossibleEdges haversineDistance villages =
     concat (map (\<lambda>i. map (\<lambda>j.
         let fromVillage = villages ! i; toVillage = villages ! j;
             d = haversineDistance (lat fromVillage) (lon fromVillage) (lat toVillage) (lon toVillage)
         in \<lparr> edge_from = village_id fromVillage, edge_to = village_id toVillage,
              weight = d, distance = Some d \<rparr>)
       [i + 1 ..< length villages]) [0 ..< length villages])"

section \<open>The notions of the specification\<close>

text \<open>The identifiers of the points; an edge joins \<open>a\<close> and \<open>b\<close> in either direction.\<close>

definition ids :: "'n Village list \<Rightarrow> int set" where
  "ids villages = village_id ` set villages"

definition joins :: "'n Edge \<Rightarrow> int \<Rightarrow> int \<Rightarrow> bool" where
  "joins e a b = ((edge_from e = a \<and> edge_to e = b) \<or> (edge_from e = b \<and> edge_to e = a))"

text \<open>A candidate edge list is complete over the points: its edges run between
  identifiers of points, and every two different identifiers are joined by one of them.\<close>

definition complete_edges :: "'n Village list \<Rightarrow> 'n Edge list \<Rightarrow> bool" where
  "complete_edges villages allEdges =
     ((\<forall>e\<in>set allEdges. edge_from e \<in> ids villages \<and> edge_to e \<in> ids villages) \<and>
      (\<forall>a\<in>ids villages. \<forall>b\<in>ids villages. a \<noteq> b \<longrightarrow> (\<exists>e\<in>set allEdges. joins e a b)))"

text \<open>Spanning trees of the candidate graph \<open>(V, E)\<close>, as the glossary has them: a set
  of candidate edges that connects all points and has no cycle. An edge lies on a cycle
  when its endpoints are connected by the other edges, so a set of edges has no cycle
  when no edge of it joins two vertices that the rest of the set connects.\<close>

definition adjacent :: "'n Edge set \<Rightarrow> int \<Rightarrow> int \<Rightarrow> bool" where
  "adjacent T a b = (\<exists>e\<in>T. joins e a b)"







subsection \<open>Invariants of the loop\<close>

text \<open>What every pass keeps: the visited identifiers are different points, the two
  arrays agree, the accepted edges are different candidate edges between visited
  identifiers, one fewer than these, and connect them.\<close>

definition prim_inv :: "'n Village list \<Rightarrow> 'n Edge list \<Rightarrow> 'n PrimState \<Rightarrow> bool" where
  "prim_inv villages allEdges t =
     (visited t \<noteq> [] \<and> distinct (visited t) \<and> set (visited t) \<subseteq> ids villages \<and>
      length (mst t) + 1 = length (visited t) \<and> sequence t = mst t \<and>
      distinct (mst t) \<and> set (mst t) \<subseteq> set allEdges \<and>
      (\<forall>e\<in>set (mst t). edge_from e \<in> set (visited t) \<and> edge_to e \<in> set (visited t)) \<and>
      (\<forall>a\<in>set (visited t). \<forall>b\<in>set (visited t). (adjacent (set (mst t)))\<^sup>*\<^sup>* a b))"


section \<open>A fixed example: three points on the equator\<close>

text \<open>The points A(0,0), B(0,1), C(0,2) of the specification's end-to-end scenario with
  their distances in kilometres, in the order the caller builds the edges.\<close>

definition pointA :: "real Village" where "pointA = \<lparr> village_id = 1, lat = 0, lon = 0 \<rparr>"
definition pointB :: "real Village" where "pointB = \<lparr> village_id = 2, lat = 0, lon = 1 \<rparr>"
definition pointC :: "real Village" where "pointC = \<lparr> village_id = 3, lat = 0, lon = 2 \<rparr>"

definition edgeAB :: "real Edge" where
  "edgeAB = \<lparr> edge_from = 1, edge_to = 2, weight = 111.19, distance = Some 111.19 \<rparr>"
definition edgeAC :: "real Edge" where
  "edgeAC = \<lparr> edge_from = 1, edge_to = 3, weight = 222.39, distance = Some 222.39 \<rparr>"
definition edgeBC :: "real Edge" where
  "edgeBC = \<lparr> edge_from = 2, edge_to = 3, weight = 111.19, distance = Some 111.19 \<rparr>"




lemmas example_defs = pointA_def pointB_def pointC_def edgeAB_def edgeAC_def edgeBC_def

lemmas run_defs = runPrimsAlgorithm_def primLoop.simps primIter_def initState_def
  startingPoint_def set_add_def set_has_def set_size_def scanStep_def frontier_def

section \<open>Facts about the scan and the loop body\<close>

lemma set_add_new: "\<not> set_has s x \<Longrightarrow> set_add s x = s @ [x]"
  by (simp add: set_add_def)

lemma scanStep_None_iff:
  "scanStep vis m e = None \<longleftrightarrow> m = None \<and> \<not> frontier vis e"
  by (cases m) (simp_all add: scanStep_def)

lemma scanEdges_None_iff:
  "scanEdges vis es m = None \<longleftrightarrow> m = None \<and> (\<forall>e\<in>set es. \<not> frontier vis e)"
  by (induction es arbitrary: m) (auto simp: scanStep_None_iff)

lemma scanStep_Some:
  "scanStep vis m e = Some x \<Longrightarrow> m = Some x \<or> (x = e \<and> frontier vis e)"
  by (cases m) (auto simp: scanStep_def split: if_splits)

lemma scanEdges_Some:
  "scanEdges vis es m = Some x \<Longrightarrow> m = Some x \<or> (x \<in> set es \<and> frontier vis x)"
proof (induction es arbitrary: m)
  case Nil
  then show ?case by simp
next
  case (Cons e es)
  from Cons.prems have "scanEdges vis es (scanStep vis m e) = Some x" by simp
  from Cons.IH[OF this] show ?case
    by (auto dest: scanStep_Some)
qed

lemma scanEdges_frontier:
  "scanEdges vis es None = Some x \<Longrightarrow> x \<in> set es \<and> frontier vis x"
  by (drule scanEdges_Some) simp

lemma frontier_newEndpoint: "frontier vis e \<Longrightarrow> \<not> set_has vis (newEndpoint vis e)"
  by (auto simp: frontier_def newEndpoint_def Let_def)

lemma primIter_Some:
  assumes "primIter es st = Some st'"
  obtains e where "scanEdges (visited st) es None = Some e"
    and "e \<in> set es" and "frontier (visited st) e"
    and "mst st' = mst st @ [e]" and "sequence st' = sequence st @ [e]"
    and "visited st' = visited st @ [newEndpoint (visited st) e]"
    and "newEndpoint (visited st) e \<notin> set (visited st)"
proof -
  from assms obtain e where e: "scanEdges (visited st) es None = Some e"
    and st': "st' = st\<lparr> mst := mst st @ [e], sequence := sequence st @ [e],
        visited := set_add (visited st) (newEndpoint (visited st) e) \<rparr>"
    by (auto simp: primIter_def newEndpoint_def split: option.splits)
  from scanEdges_frontier[OF e] have fr: "e \<in> set es" "frontier (visited st) e" by simp_all
  from frontier_newEndpoint[OF fr(2)] have new: "\<not> set_has (visited st) (newEndpoint (visited st) e)" .
  show thesis
  proof (rule that[of e])
    show "visited st' = visited st @ [newEndpoint (visited st) e]"
      using st' new by (simp add: set_add_new)
    show "newEndpoint (visited st) e \<notin> set (visited st)"
      using new by (simp add: set_has_def)
  qed (use e fr st' in simp_all)
qed

lemma primIter_None_iff:
  "primIter es st = None \<longleftrightarrow> (\<forall>e\<in>set es. \<not> frontier (visited st) e)"
proof -
  have "primIter es st = None \<longleftrightarrow> scanEdges (visited st) es None = None"
    by (simp add: primIter_def split: option.splits)
  then show ?thesis by (simp add: scanEdges_None_iff)
qed

lemma primIter_visited_grows:
  "primIter es st = Some st' \<Longrightarrow> length (visited st') = Suc (length (visited st))"
  by (erule primIter_Some) simp

section \<open>A rule for the loop: it ends, and an invariant carries to its end\<close>

text \<open>Each pass that does not break adds an identifier to \<^verbatim>\<open>visited\<close>, so
  \<open>length villages - length visited\<close> falls; the loop returns from every state.\<close>

lemma primLoop_rule:
  assumes init: "I st"
    and step: "\<And>s s'. I s \<Longrightarrow> set_size (visited s) < length vs \<Longrightarrow> primIter es s = Some s' \<Longrightarrow> I s'"
    and exit: "\<And>s. I s \<Longrightarrow> (set_size (visited s) < length vs \<longrightarrow> primIter es s = None) \<Longrightarrow> Q s"
  shows "\<exists>s'. primLoop vs es st = Some s' \<and> Q s'"
  using init
proof (induction "length vs - length (visited st)" arbitrary: st rule: less_induct)
  case less
  show ?case
  proof (cases "set_size (visited st) < length vs")
    case False
    with exit[OF less.prems] have "Q st" by simp
    with False show ?thesis by (subst primLoop.simps) simp
  next
    case True
    show ?thesis
    proof (cases "primIter es st")
      case None
      with exit[OF less.prems] have "Q st" by simp
      with True None show ?thesis by (subst primLoop.simps) simp
    next
      case (Some s')
      have I': "I s'" by (rule step[OF less.prems True Some])
      have "length vs - length (visited s') < length vs - length (visited st)"
        using primIter_visited_grows[OF Some] True by (simp add: set_size_def)
      from less.hyps[OF this I'] obtain r where "primLoop vs es s' = Some r" "Q r" by blast
      with True Some show ?thesis by (subst primLoop.simps) simp
    qed
  qed
qed

lemma primLoop_returns: "\<exists>s'. primLoop vs es st = Some s'"
  using primLoop_rule[of "\<lambda>_. True" st vs es "\<lambda>_. True"] by simp

lemma primLoop_exit:
  "\<not> set_size (visited st) < length vs \<or> (\<forall>e\<in>set es. \<not> frontier (visited st) e)
   \<Longrightarrow> primLoop vs es st = Some st"
  by (subst primLoop.simps) (auto simp: primIter_None_iff[symmetric])

text \<open>\<^verbatim>\<open>runPrimsAlgorithm\<close> through the rule: what holds of the loop's last state holds
  of the returned object.\<close>

lemma runPrimsAlgorithm_rule:
  assumes ne: "vs \<noteq> []"
    and init: "I (initState vs s)"
    and step: "\<And>t t'. I t \<Longrightarrow> set_size (visited t) < length vs \<Longrightarrow> primIter es t = Some t' \<Longrightarrow> I t'"
    and exit: "\<And>t. I t \<Longrightarrow> (set_size (visited t) < length vs \<longrightarrow> primIter es t = None)
                 \<Longrightarrow> Q \<lparr> mst = mst t, sequence = sequence t \<rparr>"
  shows "\<exists>r. runPrimsAlgorithm vs es s = Some r \<and> Q r"
proof -
  have "\<exists>t. primLoop vs es (initState vs s) = Some t \<and> Q \<lparr> mst = mst t, sequence = sequence t \<rparr>"
  proof (rule primLoop_rule[where I = I])
    show "I (initState vs s)" by (rule init)
  next
    fix t t' assume "I t" "set_size (visited t) < length vs" "primIter es t = Some t'"
    then show "I t'" by (rule step)
  next
    fix t assume "I t" "set_size (visited t) < length vs \<longrightarrow> primIter es t = None"
    then show "Q \<lparr> mst = mst t, sequence = sequence t \<rparr>" by (rule exit)
  qed
  then obtain t where "primLoop vs es (initState vs s) = Some t"
    "Q \<lparr> mst = mst t, sequence = sequence t \<rparr>" by blast
  with ne show ?thesis by (simp add: runPrimsAlgorithm_def)
qed

lemma initState_visited: "visited (initState vs s) = [startingPoint vs s]"
  by (simp add: initState_def set_add_def set_has_def)

lemma initState_lists: "mst (initState vs s) = []" "sequence (initState vs s) = []"
  by (simp_all add: initState_def)

section \<open>Edges, the frontier and the scan\<close>

lemma frontier_iff: "frontier vis e \<longleftrightarrow> (edge_from e \<in> set vis) \<noteq> (edge_to e \<in> set vis)"
  by (auto simp: frontier_def set_has_def Let_def)

lemma joins_frontier: "joins e a b \<Longrightarrow> a \<in> set vis \<Longrightarrow> b \<notin> set vis \<Longrightarrow> frontier vis e"
  by (auto simp: joins_def frontier_iff)

lemma frontier_joins:
  "frontier vis e \<Longrightarrow> \<exists>u\<in>set vis. joins e u (newEndpoint vis e)"
  by (auto simp: joins_def frontier_iff newEndpoint_def set_has_def)

lemma joins_sym: "joins e a b \<Longrightarrow> joins e b a"
  by (auto simp: joins_def)


subsection \<open>The scan returns the first frontier edge of minimum weight\<close>










section \<open>The loop invariant on a complete candidate graph\<close>

subsection \<open>Connection by a set of edges\<close>

lemma adjacent_sym: "adjacent T a b \<Longrightarrow> adjacent T b a"
  by (auto simp: adjacent_def dest: joins_sym)

lemma adjacent_mono: "T \<subseteq> T' \<Longrightarrow> adjacent T a b \<Longrightarrow> adjacent T' a b"
  by (auto simp: adjacent_def)

lemma connected_sym: "(adjacent T)\<^sup>*\<^sup>* a b \<Longrightarrow> (adjacent T)\<^sup>*\<^sup>* b a"
proof (induction rule: rtranclp_induct)
  case base
  show ?case by simp
next
  case (step y z)
  from step.hyps(2) have "adjacent T z y" by (rule adjacent_sym)
  with step.IH show ?case by (rule converse_rtranclp_into_rtranclp[rotated])
qed

lemma connected_lift:
  assumes "\<And>p q. adjacent T p q \<Longrightarrow> (adjacent T')\<^sup>*\<^sup>* p q"
    and "(adjacent T)\<^sup>*\<^sup>* a b"
  shows "(adjacent T')\<^sup>*\<^sup>* a b"
  using assms(2)
proof (induction rule: rtranclp_induct)
  case base
  show ?case by simp
next
  case (step y z)
  from assms(1)[OF step.hyps(2)] step.IH show ?case by (rule rtranclp_trans[rotated])
qed

lemma connected_mono:
  "T \<subseteq> T' \<Longrightarrow> (adjacent T)\<^sup>*\<^sup>* a b \<Longrightarrow> (adjacent T')\<^sup>*\<^sup>* a b"
  by (erule connected_lift[rotated]) (blast intro: adjacent_mono)

subsection \<open>The loop invariant\<close>

lemma startingPoint_in_ids:
  "vs \<noteq> [] \<Longrightarrow> s = None \<or> (\<exists>x\<in>ids vs. s = Some x) \<Longrightarrow> startingPoint vs s \<in> ids vs"
  by (cases vs) (auto simp: startingPoint_def ids_def)

lemma prim_inv_init: "startingPoint vs s \<in> ids vs \<Longrightarrow> prim_inv vs es (initState vs s)"
  by (simp add: prim_inv_def initState_visited initState_lists)

lemma prim_inv_step:
  assumes inv: "prim_inv vs es t"
    and ends: "\<forall>e\<in>set es. edge_from e \<in> ids vs \<and> edge_to e \<in> ids vs"
    and it: "primIter es t = Some t'"
  shows "prim_inv vs es t'"
proof -
  from it obtain e where e: "e \<in> set es" "frontier (visited t) e"
    and m: "mst t' = mst t @ [e]" and sq: "sequence t' = sequence t @ [e]"
    and v: "visited t' = visited t @ [newEndpoint (visited t) e]"
    and new: "newEndpoint (visited t) e \<notin> set (visited t)"
    by (rule primIter_Some)
  let ?n = "newEndpoint (visited t) e"
  from frontier_joins[OF e(2)] obtain u where u: "u \<in> set (visited t)" "joins e u ?n" by blast
  have inside: "\<forall>f\<in>set (mst t). edge_from f \<in> set (visited t) \<and> edge_to f \<in> set (visited t)"
    using inv by (simp add: prim_inv_def)
  have enew: "e \<notin> set (mst t)"
    using inside e(2) by (auto simp: frontier_iff)
  have nid: "?n \<in> ids vs" using ends e(1) by (simp add: newEndpoint_def)
  have eends: "edge_from e \<in> set (visited t') \<and> edge_to e \<in> set (visited t')"
    using u v by (auto simp: joins_def)
  have old: "\<forall>a\<in>set (visited t). \<forall>b\<in>set (visited t). (adjacent (set (mst t')))\<^sup>*\<^sup>* a b"
  proof (intro ballI)
    fix a b assume "a \<in> set (visited t)" "b \<in> set (visited t)"
    with inv have "(adjacent (set (mst t)))\<^sup>*\<^sup>* a b" by (simp add: prim_inv_def)
    then show "(adjacent (set (mst t')))\<^sup>*\<^sup>* a b"
      by (rule connected_mono[rotated]) (simp add: m subset_insertI)
  qed
  have un: "adjacent (set (mst t')) u ?n" using u(2) m by (auto simp: adjacent_def)
  have to_new: "\<forall>a\<in>set (visited t). (adjacent (set (mst t')))\<^sup>*\<^sup>* a ?n"
  proof
    fix a assume "a \<in> set (visited t)"
    with old u(1) have "(adjacent (set (mst t')))\<^sup>*\<^sup>* a u" by blast
    with un show "(adjacent (set (mst t')))\<^sup>*\<^sup>* a ?n" by (rule rtranclp.rtrancl_into_rtrancl[rotated])
  qed
  have conn: "\<forall>a\<in>set (visited t'). \<forall>b\<in>set (visited t'). (adjacent (set (mst t')))\<^sup>*\<^sup>* a b"
    using old to_new by (auto simp: v intro: connected_sym)
  show ?thesis
    unfolding prim_inv_def
  proof (intro conjI)
    show "visited t' \<noteq> []" by (simp add: v)
    show "distinct (visited t')" using inv new by (simp add: v prim_inv_def)
    show "set (visited t') \<subseteq> ids vs" using inv nid by (simp add: v prim_inv_def)
    show "length (mst t') + 1 = length (visited t')" using inv by (simp add: v m prim_inv_def)
    show "sequence t' = mst t'" using inv by (simp add: m sq prim_inv_def)
    show "distinct (mst t')" using inv enew by (simp add: m prim_inv_def)
    show "set (mst t') \<subseteq> set es" using inv e(1) by (simp add: m prim_inv_def)
    show "\<forall>f\<in>set (mst t'). edge_from f \<in> set (visited t') \<and> edge_to f \<in> set (visited t')"
      using inside eends by (auto simp: m v)
    show "\<forall>a\<in>set (visited t'). \<forall>b\<in>set (visited t'). (adjacent (set (mst t')))\<^sup>*\<^sup>* a b"
      by (rule conn)
  qed
qed

lemma card_ids_le: "card (ids vs) \<le> length vs"
  unfolding ids_def by (rule order_trans[OF card_image_le card_length]) simp

text \<open>When the loop ends, every point has been visited: either the count says so, or
  no frontier edge is left, which in a complete graph leaves no point outside.\<close>

lemma exit_all_visited:
  assumes inv: "prim_inv vs es t"
    and ce: "complete_edges vs es"
    and ex: "set_size (visited t) < length vs \<longrightarrow> primIter es t = None"
  shows "set (visited t) = ids vs"
proof (rule ccontr)
  assume neq: "set (visited t) \<noteq> ids vs"
  from inv have sub: "set (visited t) \<subseteq> ids vs" and dist: "distinct (visited t)"
    and ne: "visited t \<noteq> []" by (simp_all add: prim_inv_def)
  have fin: "finite (ids vs)" by (simp add: ids_def)
  from sub neq have "set (visited t) \<subset> ids vs" by blast
  with fin have "card (set (visited t)) < card (ids vs)" by (rule psubset_card_mono)
  with dist card_ids_le[of vs] have "set_size (visited t) < length vs"
    by (simp add: set_size_def distinct_card)
  with ex have nofr: "\<forall>e\<in>set es. \<not> frontier (visited t) e" by (simp add: primIter_None_iff)
  from ne obtain a where a: "a \<in> set (visited t)" by (cases "visited t") auto
  from sub neq obtain b where b: "b \<in> ids vs" "b \<notin> set (visited t)" by blast
  from a b sub have "a \<in> ids vs" "a \<noteq> b" by auto
  with b(1) ce have "\<exists>e\<in>set es. joins e a b"
    unfolding complete_edges_def by blast
  then obtain e where "e \<in> set es" "joins e a b" by blast
  with a b(2) nofr show False by (blast dest: joins_frontier)
qed


text \<open>The list that the caller builds is complete over the points it is built from.\<close>

lemma allPossibleEdges_complete: "complete_edges vs (allPossibleEdges h vs)"
  unfolding complete_edges_def
proof (intro conjI ballI impI)
  fix e assume "e \<in> set (allPossibleEdges h vs)"
  then obtain i j where "Suc i \<le> j" "j < length vs"
    "edge_from e = village_id (vs ! i)" "edge_to e = village_id (vs ! j)"
    by (auto simp: allPossibleEdges_def Let_def)
  moreover from this have "i < length vs" by simp
  ultimately show "edge_from e \<in> ids vs" "edge_to e \<in> ids vs" by (auto simp: ids_def)
next
  fix a b assume "a \<in> ids vs" "b \<in> ids vs" "a \<noteq> b"
  then obtain i j where ij: "i < length vs" "j < length vs" "a = village_id (vs ! i)"
    "b = village_id (vs ! j)" by (auto simp: ids_def in_set_conv_nth)
  with \<open>a \<noteq> b\<close> have "i \<noteq> j" by auto
  have edge: "\<exists>e\<in>set (allPossibleEdges h vs). edge_from e = village_id (vs ! p) \<and> edge_to e = village_id (vs ! q)"
    if "p < q" "q < length vs" for p q
  proof -
    let ?d = "h (lat (vs ! p)) (lon (vs ! p)) (lat (vs ! q)) (lon (vs ! q))"
    let ?e = "\<lparr> edge_from = village_id (vs ! p), edge_to = village_id (vs ! q), weight = ?d, distance = Some ?d \<rparr>"
    have "?e \<in> set (allPossibleEdges h vs)"
      using that by (auto simp: allPossibleEdges_def Let_def intro!: bexI[of _ p] image_eqI[of _ _ q])
    then show ?thesis by (intro bexI[of _ ?e]) simp_all
  qed
  show "\<exists>e\<in>set (allPossibleEdges h vs). joins e a b"
  proof (cases "i < j")
    case True
    from edge[OF True ij(2)] show ?thesis using ij by (auto simp: joins_def)
  next
    case False
    with \<open>i \<noteq> j\<close> have "j < i" by simp
    from edge[OF this ij(1)] show ?thesis using ij by (auto simp: joins_def)
  qed
qed

section \<open>Minimality: the exchange argument\<close>

subsection \<open>Exchanging an edge of a spanning tree across a cut\<close>





subsection \<open>The accepted edges stay inside a lightest spanning tree\<close>





subsection \<open>Trees by counting and trees without cycles are the same\<close>







subsection \<open>The result on trees by counting\<close>




section \<open>The claims about degenerate inputs, the start point and the two lists\<close>

text \<open>
  Claim C4, as amended. With fewer than two points \<^verbatim>\<open>runPrimsAlgorithm\<close> returns the
  empty result \<^verbatim>\<open>{mst: [], sequence: []}\<close>, whatever the edge list and whether or not
  a start identifier is passed; it returns, and raises nothing.
\<close>

theorem degenerate_fewer_than_two_points:
  "length vs < 2 \<Longrightarrow> runPrimsAlgorithm vs es s = Some \<lparr> mst = [], sequence = [] \<rparr>"
proof (cases "vs = []")
  case True
  then show ?thesis by (simp add: runPrimsAlgorithm_def)
next
  case False
  assume "length vs < 2"
  with False have len: "length vs = 1" by (cases vs) auto
  then have "\<not> set_size (visited (initState vs s)) < length vs"
    by (simp add: initState_visited set_size_def)
  then have "primLoop vs es (initState vs s) = Some (initState vs s)"
    by (simp add: primLoop_exit)
  with False show ?thesis by (simp add: runPrimsAlgorithm_def initState_lists)
qed

theorem degenerate_fewer_than_two_points_witness:
  "length [pointA] < 2 \<and>
   runPrimsAlgorithm [pointA] [edgeAB] (Some 1) = Some \<lparr> mst = [], sequence = [] \<rparr>"
  using degenerate_fewer_than_two_points[of "[pointA]" "[edgeAB]" "Some 1"] by simp

text \<open>
  Claim C4 as stated also promises the empty result whenever no start identifier is
  passed. With two points, the edge between them and no start identifier, line 35 takes
  the first point as the start and the edge is returned.
\<close>

theorem missing_start_counterexample:
  "(length [pointA, pointB] < 2 \<or> (None :: int option) = None) \<and>
   runPrimsAlgorithm [pointA, pointB] [edgeAB] None = Some \<lparr> mst = [edgeAB], sequence = [edgeAB] \<rparr> \<and>
   runPrimsAlgorithm [pointA, pointB] [edgeAB] None \<noteq> Some \<lparr> mst = [], sequence = [] \<rparr>"
  by (simp add: run_defs example_defs)

text \<open>
  Claim C5. For a non-empty point list and any candidate edge list, a call without
  \<^verbatim>\<open>startNodeId\<close> starts from the first point: \<^verbatim>\<open>visited\<close> is initialised with the
  identifier of the first point alone, the loop starts in the very state it starts in
  when that identifier is passed, and the call returns what that call returns.
\<close>

theorem implicit_start_is_first_point:
  "vs \<noteq> [] \<Longrightarrow>
     visited (initState vs None) = [village_id (hd vs)] \<and>
     initState vs None = initState vs (Some (village_id (hd vs))) \<and>
     runPrimsAlgorithm vs es None = runPrimsAlgorithm vs es (Some (village_id (hd vs)))"
  by (simp add: runPrimsAlgorithm_def initState_def startingPoint_def hd_conv_nth
      set_add_def set_has_def)

theorem implicit_start_is_first_point_witness:
  "[pointB, pointA, pointC] \<noteq> [] \<and>
   visited (initState [pointB, pointA, pointC] None) = [2] \<and>
   runPrimsAlgorithm [pointB, pointA, pointC] [edgeAB, edgeAC, edgeBC] None
     = runPrimsAlgorithm [pointB, pointA, pointC] [edgeAB, edgeAC, edgeBC] (Some 2)"
  using implicit_start_is_first_point[of "[pointB, pointA, pointC]" "[edgeAB, edgeAC, edgeBC]"]
  by (simp add: pointB_def initState_visited startingPoint_def)

text \<open>
  Claim C6. For any point list, any candidate edge list and any optional start
  identifier, the call returns and the returned lists \<^verbatim>\<open>mst\<close> and \<^verbatim>\<open>sequence\<close> are
  equal: the same edges in the same order.
\<close>

theorem mst_and_sequence_identical:
  "\<exists>r. runPrimsAlgorithm vs es s = Some r \<and> mst r = sequence r"
proof (cases "vs = []")
  case True
  then show ?thesis by (simp add: runPrimsAlgorithm_def)
next
  case False
  show ?thesis
  proof (rule runPrimsAlgorithm_rule[where I = "\<lambda>t. mst t = sequence t", OF False])
    show "mst (initState vs s) = sequence (initState vs s)" by (simp add: initState_lists)
  next
    fix t t' :: "'a PrimState"
    assume "mst t = sequence t" "primIter es t = Some t'"
    then show "mst t' = sequence t'" by (auto elim: primIter_Some)
  qed simp
qed

text \<open>
  Claim C9. \<^verbatim>\<open>runPrimsAlgorithm\<close> returns on every input, and so does the loop from
  every state, whatever the edge list (incomplete, disconnected, empty). When a pass
  finds no frontier edge the loop ends at once and hands back the lists built so far.
\<close>

theorem terminates_on_every_input:
  "(\<exists>r. runPrimsAlgorithm vs es s = Some r) \<and>
   (\<forall>st. \<exists>st'. primLoop vs es st = Some st') \<and>
   (\<forall>st. (\<forall>e\<in>set es. \<not> frontier (visited st) e) \<longrightarrow> primLoop vs es st = Some st)"
proof (intro conjI allI impI)
  show "\<exists>r. runPrimsAlgorithm vs es s = Some r"
  proof (cases "vs = []")
    case True
    then show ?thesis by (simp add: runPrimsAlgorithm_def)
  next
    case False
    from primLoop_returns obtain t where "primLoop vs es (initState vs s) = Some t" by blast
    with False show ?thesis by (simp add: runPrimsAlgorithm_def)
  qed
next
  fix st :: "'a PrimState"
  show "\<exists>st'. primLoop vs es st = Some st'" by (rule primLoop_returns)
next
  fix st :: "'a PrimState"
  assume "\<forall>e\<in>set es. \<not> frontier (visited st) e"
  then show "primLoop vs es st = Some st" by (simp add: primLoop_exit)
qed

theorem terminates_on_every_input_witness:
  "(\<exists>r. runPrimsAlgorithm [pointA, pointB, pointC] [edgeAB] (Some 1) = Some r) \<and>
   \<not> frontier [1, 2] edgeAB \<and>
   primLoop [pointA, pointB, pointC] [edgeAB]
     \<lparr> mst = [edgeAB], sequence = [edgeAB], visited = [1, 2] \<rparr>
     = Some \<lparr> mst = [edgeAB], sequence = [edgeAB], visited = [1, 2] \<rparr> \<and>
   runPrimsAlgorithm [pointA, pointB, pointC] [edgeAB] (Some 1)
     = Some \<lparr> mst = [edgeAB], sequence = [edgeAB] \<rparr>"
proof -
  have nf: "\<forall>e\<in>set [edgeAB]. \<not> frontier [1, 2] e"
    by (simp add: frontier_def set_has_def edgeAB_def)
  from terminates_on_every_input[of "[pointA, pointB, pointC]" "[edgeAB]" "Some 1"]
  have ret: "\<exists>r. runPrimsAlgorithm [pointA, pointB, pointC] [edgeAB] (Some 1) = Some r"
    and ex: "\<And>st. (\<forall>e\<in>set [edgeAB]. \<not> frontier (visited st) e)
        \<Longrightarrow> primLoop [pointA, pointB, pointC] [edgeAB] st = Some st"
    by blast+
  have "primLoop [pointA, pointB, pointC] [edgeAB]
     \<lparr> mst = [edgeAB], sequence = [edgeAB], visited = [1, 2] \<rparr>
     = Some \<lparr> mst = [edgeAB], sequence = [edgeAB], visited = [1, 2] \<rparr>"
    by (rule ex) (use nf in simp)
  moreover have "runPrimsAlgorithm [pointA, pointB, pointC] [edgeAB] (Some 1)
     = Some \<lparr> mst = [edgeAB], sequence = [edgeAB] \<rparr>"
    by (simp add: run_defs example_defs)
  ultimately show ?thesis using ret nf by simp
qed

text \<open>
  Claim C10. For a non-empty point list, when the start identifier passed is an
  endpoint of no candidate edge (as when it is the identifier of no point), the call
  returns the empty result \<^verbatim>\<open>{mst: [], sequence: []}\<close>: it returns, and raises nothing.
\<close>

theorem unknown_start_gives_empty_result:
  assumes "vs \<noteq> []" and "\<forall>e\<in>set es. edge_from e \<noteq> s \<and> edge_to e \<noteq> s"
  shows "runPrimsAlgorithm vs es (Some s) = Some \<lparr> mst = [], sequence = [] \<rparr>"
proof -
  have "\<forall>e\<in>set es. \<not> frontier (visited (initState vs (Some s))) e"
    using assms(2) by (simp add: initState_visited startingPoint_def frontier_def set_has_def)
  then have "primLoop vs es (initState vs (Some s)) = Some (initState vs (Some s))"
    by (simp add: primLoop_exit)
  with assms(1) show ?thesis by (simp add: runPrimsAlgorithm_def initState_lists)
qed

theorem unknown_start_gives_empty_result_witness:
  "[pointA, pointB, pointC] \<noteq> [] \<and>
   list_all (\<lambda>e. edge_from e \<noteq> 7 \<and> edge_to e \<noteq> 7) [edgeAB, edgeAC, edgeBC] \<and>
   runPrimsAlgorithm [pointA, pointB, pointC] [edgeAB, edgeAC, edgeBC] (Some 7)
     = Some \<lparr> mst = [], sequence = [] \<rparr>"
  using unknown_start_gives_empty_result[of "[pointA, pointB, pointC]" "[edgeAB, edgeAC, edgeBC]" 7]
  by (simp add: example_defs)

section \<open>The tie-break policy\<close>




section \<open>The number of accepted edges\<close>

text \<open>
  Claim C2. For a list of \<open>n \<ge> 1\<close> points (with the unique identifiers of the data
  model), a candidate edge list that is complete over them, and a start that is resolved
  (no \<^verbatim>\<open>startNodeId\<close>, so that the first point is taken, or the identifier of one of
  the points), the call returns and \<^verbatim>\<open>sequence\<close> has exactly \<open>n - 1\<close> edges.
\<close>

theorem sequence_has_n_minus_one_edges:
  assumes "1 \<le> length vs"
    and "distinct (map village_id vs)"
    and "complete_edges vs es"
    and "s = None \<or> (\<exists>x\<in>ids vs. s = Some x)"
  shows "\<exists>r. runPrimsAlgorithm vs es s = Some r \<and> length (sequence r) = length vs - 1"
proof -
  from assms(1) have ne: "vs \<noteq> []" by auto
  have card: "card (ids vs) = length vs"
    using distinct_card[OF assms(2)] by (simp add: ids_def)
  show ?thesis
  proof (rule runPrimsAlgorithm_rule[where I = "prim_inv vs es", OF ne])
    show "prim_inv vs es (initState vs s)"
      by (rule prim_inv_init) (rule startingPoint_in_ids[OF ne assms(4)])
  next
    fix t t' :: "'a PrimState"
    assume "prim_inv vs es t" "primIter es t = Some t'"
    with assms(3) show "prim_inv vs es t'"
      by (auto simp: complete_edges_def intro: prim_inv_step)
  next
    fix t :: "'a PrimState"
    assume inv: "prim_inv vs es t"
      and ex: "set_size (visited t) < length vs \<longrightarrow> primIter es t = None"
    from exit_all_visited[OF inv assms(3) ex] have "set (visited t) = ids vs" .
    moreover from inv have "distinct (visited t)" "length (mst t) + 1 = length (visited t)"
      "sequence t = mst t" by (simp_all add: prim_inv_def)
    ultimately show "length (sequence \<lparr> mst = mst t, sequence = sequence t \<rparr>) = length vs - 1"
      using card distinct_card[of "visited t"] by simp
  qed
qed


theorem sequence_has_n_minus_one_edges_witness:
  "1 \<le> length [pointA, pointB, pointC] \<and>
   distinct (map village_id [pointA, pointB, pointC]) \<and>
   complete_edges [pointA, pointB, pointC] [edgeAB, edgeAC, edgeBC] \<and>
   (\<exists>r. runPrimsAlgorithm [pointA, pointB, pointC] [edgeAB, edgeAC, edgeBC] None = Some r \<and>
        length (sequence r) = 2) \<and>
   runPrimsAlgorithm [pointA, pointB, pointC] [edgeAB, edgeAC, edgeBC] None
     = Some \<lparr> mst = [edgeAB, edgeBC], sequence = [edgeAB, edgeBC] \<rparr>"
proof -
  have n: "1 \<le> length [pointA, pointB, pointC]" by simp
  have d: "distinct (map village_id [pointA, pointB, pointC])" by (simp add: example_defs)
  have c: "complete_edges [pointA, pointB, pointC] [edgeAB, edgeAC, edgeBC]"
    by (simp add: complete_edges_def ids_def joins_def example_defs)
  have s: "(None :: int option) = None \<or> (\<exists>x\<in>ids [pointA, pointB, pointC]. None = Some x)" by simp
  have v: "runPrimsAlgorithm [pointA, pointB, pointC] [edgeAB, edgeAC, edgeBC] None
     = Some \<lparr> mst = [edgeAB, edgeBC], sequence = [edgeAB, edgeBC] \<rparr>"
    by (simp add: run_defs example_defs)
  from sequence_has_n_minus_one_edges[OF n d c s] n d c v show ?thesis by simp
qed

section \<open>Minimality of the returned tree\<close>






end
